theory Spec2Isabelle
  imports Main "HOL-Library.Sublist"
begin

section \<open>ECMAScript string operations used by the web client\<close>

text \<open>
  Strings are lists of characters. The model starts at the decoded text: one read of the
  response body is the string that \<^verbatim>\<open>decoder.decode(value, { stream: true })\<close> returns
  for it. A character is a code unit below 256 (Isabelle's \<open>char\<close>), so the strings are
  those of the Latin-1 range; every delimiter, tag and sentinel of the protocol is in
  the ASCII range.
\<close>

text \<open>\<^verbatim>\<open>s.startsWith(p)\<close>\<close>

definition startsWith :: "string \<Rightarrow> string \<Rightarrow> bool" where
  "startsWith s p = (take (length p) s = p)"

text \<open>
  \<^verbatim>\<open>s.split(sep)\<close> for a non-empty separator: the string is cut at the occurrences
  of \<open>sep\<close> found from left to right, an occurrence starting after the end of the previous
  one; the result always has at least one piece. With the empty separator the result is
  the list of the characters.
\<close>

fun split_at :: "string \<Rightarrow> string \<Rightarrow> string list" where
  "split_at sep [] = [[]]"
| "split_at sep (c # cs) =
     (if startsWith (c # cs) sep then [] # split_at sep (drop (length sep - 1) cs)
      else (case split_at sep cs of [] \<Rightarrow> [[c]] | p # ps \<Rightarrow> (c # p) # ps))"

definition js_split :: "string \<Rightarrow> string \<Rightarrow> string list" where
  "js_split sep s = (if sep = [] then map (\<lambda>c. [c]) s else split_at sep s)"

text \<open>
  \<^verbatim>\<open>s.trim()\<close> removes white space and line terminators at both ends; below 256
  these are TAB, LF, VT, FF, CR, SPACE and the no-break space.
\<close>

definition isWhiteSpace :: "char \<Rightarrow> bool" where
  "isWhiteSpace c = (c = CHR 0x09 \<or> c = CHR 0x0A \<or> c = CHR 0x0B \<or> c = CHR 0x0C
                      \<or> c = CHR 0x0D \<or> c = CHR 0x20 \<or> c = CHR 0xA0)"

definition trim :: "string \<Rightarrow> string" where
  "trim s = rev (dropWhile isWhiteSpace (rev (dropWhile isWhiteSpace s)))"

text \<open>
  \<^verbatim>\<open>s.toLowerCase()\<close>: below 256 the upper-case letters are A to Z and the
  accented capitals from 192 to 222 without the multiplication sign 215; each has its
  lower-case letter 32 places above. Every other character is kept.
\<close>

definition toLowerChar :: "char \<Rightarrow> char" where
  "toLowerChar c =
     (let n = (of_char c :: nat)
      in if (65 \<le> n \<and> n \<le> 90) \<or> (192 \<le> n \<and> n \<le> 222 \<and> n \<noteq> 215)
         then char_of (n + 32) else c)"

definition toLowerCase :: "string \<Rightarrow> string" where
  "toLowerCase s = map toLowerChar s"

text \<open>
  \<^verbatim>\<open>s.lastIndexOf(".")\<close>: the index of the last occurrence of the character, \<open>-1\<close> when
  there is none.
\<close>

fun lastIndexOf :: "string \<Rightarrow> char \<Rightarrow> int" where
  "lastIndexOf [] ch = -1"
| "lastIndexOf (c # cs) ch =
     (let r = lastIndexOf cs ch
      in if r \<noteq> -1 then r + 1 else if c = ch then 0 else -1)"

text \<open>\<^verbatim>\<open>s.substring(i)\<close>: a negative start is taken as \<open>0\<close>.\<close>

definition substring :: "string \<Rightarrow> int \<Rightarrow> string" where
  "substring s i = drop (nat (max 0 i)) s"

text \<open>\<^verbatim>\<open>xs.join(sep)\<close>\<close>

fun join :: "string \<Rightarrow> string list \<Rightarrow> string" where
  "join sep [] = []"
| "join sep [x] = x"
| "join sep (x # y # ys) = x @ sep @ join sep (y # ys)"

text \<open>The decimal text of a number, as a template literal renders \<^verbatim>\<open>Date.now()\<close>.\<close>

function string_of_nat :: "nat \<Rightarrow> string" where
  "string_of_nat n =
     (if n < 10 then [char_of (48 + n)]
      else string_of_nat (n div 10) @ [char_of (48 + n mod 10)])"
  by pat_completeness auto
termination
  by (relation "measure id") auto

declare string_of_nat.simps [simp del]

section \<open>Chat: messages and component state\<close>

text \<open>
  The \<^verbatim>\<open>Message\<close> interface of the message list; \<open>msg_id\<close> and \<open>msg_role\<close> are its
  \<^verbatim>\<open>id\<close> and \<^verbatim>\<open>role\<close>, and \<^verbatim>\<open>isStreaming\<close> is optional.
\<close>

datatype role = User | Assistant

record message =
  msg_id :: string
  msg_role :: role
  content :: string
  timestamp :: string
  isStreaming :: "bool option"

text \<open>The state of \<^verbatim>\<open>ChatInterface\<close> that \<^verbatim>\<open>handleSendMessage\<close> reads and writes.\<close>

record chat_state =
  messages :: "message list"
  isLoading :: bool
  conversationId :: "string option"
  error :: "string option"

text \<open>
  A thrown value: an \<^verbatim>\<open>Error\<close> with its message, or anything else. The handler shows
  the message of an \<^verbatim>\<open>Error\<close> and a fixed text otherwise.
\<close>

datatype js_exn = JsError string | NonError

text \<open>
  What the environment supplies to one turn: the two readings of \<^verbatim>\<open>Date.now()\<close> and
  of \<^verbatim>\<open>new Date().toISOString()\<close>, and the outcome of \<^verbatim>\<open>sendChatMessage\<close>. The
  request fails, or it returns the conversation id of the response header and a body;
  the body may be missing, otherwise it delivers a list of reads and then either closes
  or fails.
\<close>

record clock =
  now_user :: nat
  iso_user :: string
  now_assistant :: nat
  iso_assistant :: string

datatype stream_end = Closed | ReadFailed js_exn

datatype response =
    SendFailed js_exn
  | Response "string option" "(string list \<times> stream_end) option"

section \<open>Chat: the receiver of the event stream\<close>

text \<open>
  The local state of the loop is the pair of \<^verbatim>\<open>assistantContent\<close> and the message list
  (each \<^verbatim>\<open>setMessages\<close> call applies its function to the list). A throw carries the
  state reached when it happens, since the handler goes on from there.
\<close>

type_synonym draft = "string \<times> message list"

text \<open>The update of lines 142 to 148 and 165 to 171.\<close>

definition set_streaming_content :: "string \<Rightarrow> string \<Rightarrow> message list \<Rightarrow> message list" where
  "set_streaming_content aid c prev =
     map (\<lambda>msg. if msg_id msg = aid then msg\<lparr>content := c, isStreaming := Some True\<rparr> else msg) prev"

text \<open>The update of lines 178 to 184.\<close>

definition mark_complete :: "string \<Rightarrow> message list \<Rightarrow> message list" where
  "mark_complete aid prev =
     map (\<lambda>msg. if msg_id msg = aid then msg\<lparr>isStreaming := Some False\<rparr> else msg) prev"

text \<open>The body of the inner loop over the lines of a complete event (lines 137 to 152).\<close>

fun process_line :: "string \<Rightarrow> string \<Rightarrow> draft \<Rightarrow> (js_exn \<times> draft) + draft" where
  "process_line aid line (acc, msgs) =
     (if startsWith line ''data: '' then
        (let c = drop 6 line
         in if c \<noteq> [] \<and> \<not> startsWith c ''[ERROR]''
            then Inr (acc @ c, set_streaming_content aid (acc @ c) msgs)
            else if startsWith c ''[ERROR]''
            then Inl (JsError (trim (drop 7 c)), (acc, msgs))
            else Inr (acc, msgs))
      else Inr (acc, msgs))"

fun process_lines :: "string \<Rightarrow> string list \<Rightarrow> draft \<Rightarrow> (js_exn \<times> draft) + draft" where
  "process_lines aid [] st = Inr st"
| "process_lines aid (l # ls) st =
     (case process_line aid l st of
        Inl e \<Rightarrow> Inl e
      | Inr st' \<Rightarrow> process_lines aid ls st')"

definition process_event :: "string \<Rightarrow> string \<Rightarrow> draft \<Rightarrow> (js_exn \<times> draft) + draft" where
  "process_event aid event st = process_lines aid (js_split ''\<newline>'' event) st"

fun process_events :: "string \<Rightarrow> string list \<Rightarrow> draft \<Rightarrow> (js_exn \<times> draft) + draft" where
  "process_events aid [] st = Inr st"
| "process_events aid (ev # evs) st =
     (case process_event aid ev st of
        Inl e \<Rightarrow> Inl e
      | Inr st' \<Rightarrow> process_events aid evs st')"

text \<open>\<^verbatim>\<open>events.pop() || ""\<close>: the last element, the empty string for an empty array.\<close>

definition pop_or_empty :: "string list \<Rightarrow> string" where
  "pop_or_empty events = (if events = [] then [] else last events)"

text \<open>
  The \<^verbatim>\<open>while (true)\<close> loop (lines 124 to 155) over the reads that the body delivers
  before it ends; the result is the buffer and the state at \<^verbatim>\<open>break\<close>.
\<close>

fun read_loop :: "string \<Rightarrow> string list \<Rightarrow> string \<Rightarrow> draft \<Rightarrow> (js_exn \<times> draft) + (string \<times> draft)" where
  "read_loop aid [] buffer st = Inr (buffer, st)"
| "read_loop aid (v # rest) buffer st =
     (let events = js_split ''\<newline>\<newline>'' (buffer @ v)
      in case process_events aid (butlast events) st of
           Inl e \<Rightarrow> Inl e
         | Inr st' \<Rightarrow> read_loop aid rest (pop_or_empty events) st')"

text \<open>The remaining buffer after the loop (lines 158 to 175); nothing is thrown here.\<close>

fun process_rest_line :: "string \<Rightarrow> draft \<Rightarrow> string \<Rightarrow> draft" where
  "process_rest_line aid (acc, msgs) line =
     (if startsWith line ''data: '' then
        (let c = drop 6 line
         in if c \<noteq> [] \<and> \<not> startsWith c ''[ERROR]''
            then (acc @ c, set_streaming_content aid (acc @ c) msgs)
            else (acc, msgs))
      else (acc, msgs))"

definition process_rest :: "string \<Rightarrow> string \<Rightarrow> draft \<Rightarrow> draft" where
  "process_rest aid buffer st =
     (if buffer \<noteq> [] then foldl (process_rest_line aid) st (js_split ''\<newline>'' buffer) else st)"

text \<open>
  The reads of one body: the loop, the failure of the read that follows the last chunk
  when the body fails, and the remaining buffer when it closes.
\<close>

definition consume :: "string \<Rightarrow> string list \<Rightarrow> stream_end \<Rightarrow> draft \<Rightarrow> (js_exn \<times> draft) + draft" where
  "consume aid reads fin st =
     (case read_loop aid reads [] st of
        Inl e \<Rightarrow> Inl e
      | Inr (buffer, st') \<Rightarrow>
          (case fin of
             ReadFailed e \<Rightarrow> Inl (e, st')
           | Closed \<Rightarrow> Inr (process_rest aid buffer st')))"

section \<open>Chat: one turn of \<^verbatim>\<open>handleSendMessage\<close>\<close>

text \<open>A string in a condition is true when it is neither \<^verbatim>\<open>null\<close> nor empty.\<close>

definition truthy :: "string option \<Rightarrow> bool" where
  "truthy x = (case x of None \<Rightarrow> False | Some s \<Rightarrow> s \<noteq> [])"

definition userMessage :: "clock \<Rightarrow> string \<Rightarrow> message" where
  "userMessage clk text =
     \<lparr>msg_id = ''user-'' @ string_of_nat (now_user clk), msg_role = User, content = text,
      timestamp = iso_user clk, isStreaming = None\<rparr>"

definition assistantMessageId :: "clock \<Rightarrow> string" where
  "assistantMessageId clk = ''assistant-'' @ string_of_nat (now_assistant clk)"

definition assistantMessage :: "clock \<Rightarrow> message" where
  "assistantMessage clk =
     \<lparr>msg_id = assistantMessageId clk, msg_role = Assistant, content = [],
      timestamp = iso_assistant clk, isStreaming = Some True\<rparr>"

text \<open>The guard of line 75.\<close>

definition accepts :: "chat_state \<Rightarrow> string \<Rightarrow> bool" where
  "accepts s text = (\<not> (trim text = [] \<or> isLoading s))"

text \<open>
  Lines 77 to 100, up to the first \<^verbatim>\<open>await\<close>: the error is cleared, the user message
  and the empty assistant message are appended, the loading flag is set.
\<close>

definition begin_turn :: "chat_state \<Rightarrow> clock \<Rightarrow> string \<Rightarrow> chat_state" where
  "begin_turn s clk text =
     s\<lparr>error := None,
       messages := (messages s @ [userMessage clk text]) @ [assistantMessage clk],
       isLoading := True\<rparr>"

text \<open>
  The \<^verbatim>\<open>try\<close> block (lines 103 to 184). \<open>conv\<close> is the conversation id that the
  closure of the call holds. A throw carries the component state reached. The
  navigation of line 111 and the console output of line 186 act outside the state of
  the component and are left out.
\<close>

definition try_block :: "string \<Rightarrow> string option \<Rightarrow> response \<Rightarrow> chat_state \<Rightarrow> (js_exn \<times> chat_state) + chat_state" where
  "try_block aid conv resp s =
     (case resp of
        SendFailed e \<Rightarrow> Inl (e, s)
      | Response newConversationId body \<Rightarrow>
          (let s1 = (if truthy newConversationId \<and> \<not> truthy conv
                     then s\<lparr>conversationId := newConversationId\<rparr> else s)
           in case body of
                None \<Rightarrow> Inl (JsError ''No response body'', s1)
              | Some (reads, fin) \<Rightarrow>
                  (case consume aid reads fin ([], messages s1) of
                     Inl (e, (acc, msgs)) \<Rightarrow> Inl (e, s1\<lparr>messages := msgs\<rparr>)
                   | Inr (acc, msgs) \<Rightarrow> Inr (s1\<lparr>messages := mark_complete aid msgs\<rparr>))))"

text \<open>The \<^verbatim>\<open>catch\<close> block (lines 185 to 189).\<close>

definition catch_block :: "string \<Rightarrow> js_exn \<Rightarrow> chat_state \<Rightarrow> chat_state" where
  "catch_block aid err s =
     s\<lparr>error := Some (case err of JsError m \<Rightarrow> m | NonError \<Rightarrow> ''Failed to send message''),
       messages := filter (\<lambda>msg. msg_id msg \<noteq> aid) (messages s)\<rparr>"

text \<open>The rest of a turn once the request has an outcome: try, catch, finally.\<close>

definition finish_turn :: "string \<Rightarrow> string option \<Rightarrow> response \<Rightarrow> chat_state \<Rightarrow> chat_state" where
  "finish_turn aid conv resp s =
     (let s' = (case try_block aid conv resp s of
                  Inl (err, s1) \<Rightarrow> catch_block aid err s1
                | Inr s1 \<Rightarrow> s1)
      in s'\<lparr>isLoading := False\<rparr>)"

text \<open>A whole turn, with nothing else happening in between.\<close>

definition handleSendMessage :: "chat_state \<Rightarrow> clock \<Rightarrow> string \<Rightarrow> response \<Rightarrow> chat_state" where
  "handleSendMessage s clk text resp =
     (if \<not> accepts s text then s
      else finish_turn (assistantMessageId clk) (conversationId s) resp (begin_turn s clk text))"

section \<open>Chat: turns in flight\<close>

text \<open>
  \<^verbatim>\<open>handleSend\<close> of \<^verbatim>\<open>MessageInput\<close>: the message handed to \<^verbatim>\<open>onSendMessage\<close>, if
  any, and the new text of the input field. \<open>loading\<close> is the \<^verbatim>\<open>isLoading\<close> property.
\<close>

definition handleSend :: "bool \<Rightarrow> string \<Rightarrow> string option \<times> string" where
  "handleSend loading input =
     (let trimmed = trim input
      in if trimmed \<noteq> [] \<and> \<not> loading then (Some trimmed, []) else (None, input))"

text \<open>
  The component together with the turns whose request has been sent and whose
  \<^verbatim>\<open>finally\<close> block has not run yet; each holds the assistant message id and the
  conversation id of its closure. Event handlers run one at a time, and each handler
  reads the component state that the previous ones have left: \<open>Call\<close> is a call of
  \<^verbatim>\<open>handleSendMessage\<close> up to its first \<^verbatim>\<open>await\<close>, \<open>Send\<close> is \<^verbatim>\<open>handleSend\<close> of the
  input field, which calls it, \<open>Settle i\<close> gives the \<open>i\<close>-th turn in flight the
  outcome of its request and runs the turn to its end, and \<open>Navigate\<close> is the effect
  of lines 35 to 41 for a conversation id in the address, with the outcome of the
  history request.
\<close>

record system =
  app :: chat_state
  in_flight :: "(string \<times> string option) list"

text \<open>
  \<^verbatim>\<open>loadConversationHistory\<close> (lines 55 to 72): the request fails, or it returns a
  history whose message list may be missing; the messages are copied without a
  streaming flag.
\<close>

datatype history_outcome = HistoryFailed | History "message list option"

definition loadConversationHistory :: "chat_state \<Rightarrow> history_outcome \<Rightarrow> chat_state" where
  "loadConversationHistory s outcome =
     (case outcome of
        HistoryFailed \<Rightarrow> s\<lparr>error := Some ''Failed to load conversation history''\<rparr>
      | History None \<Rightarrow> s
      | History (Some msgs) \<Rightarrow>
          s\<lparr>messages := map (\<lambda>msg. \<lparr>msg_id = msg_id msg, msg_role = msg_role msg,
                                      content = content msg, timestamp = timestamp msg,
                                      isStreaming = None\<rparr>) msgs\<rparr>)"

datatype event =
    Call clock string
  | Send clock string
  | Settle nat response
  | Navigate string history_outcome

definition call :: "system \<Rightarrow> clock \<Rightarrow> string \<Rightarrow> system" where
  "call sys clk text =
     (if \<not> accepts (app sys) text then sys
      else \<lparr>app = begin_turn (app sys) clk text,
            in_flight = in_flight sys @ [(assistantMessageId clk, conversationId (app sys))]\<rparr>)"

fun step :: "system \<Rightarrow> event \<Rightarrow> system" where
  "step sys (Call clk text) = call sys clk text"
| "step sys (Send clk input) =
     (case fst (handleSend (isLoading (app sys)) input) of
        None \<Rightarrow> sys
      | Some trimmed \<Rightarrow> call sys clk trimmed)"
| "step sys (Settle i resp) =
     (if i < length (in_flight sys)
      then (case in_flight sys ! i of
              (aid, conv) \<Rightarrow>
                \<lparr>app = finish_turn aid conv resp (app sys),
                 in_flight = take i (in_flight sys) @ drop (Suc i) (in_flight sys)\<rparr>)
      else sys)"
| "step sys (Navigate conv outcome) =
     sys\<lparr>app := loadConversationHistory ((app sys)\<lparr>conversationId := Some conv\<rparr>) outcome\<rparr>"

text \<open>The component as it is mounted (the initial values of its \<^verbatim>\<open>useState\<close> calls).\<close>

definition mounted :: system where
  "mounted = \<lparr>app = \<lparr>messages = [], isLoading = False, conversationId = None, error = None\<rparr>,
              in_flight = []\<rparr>"

section \<open>Documents: the upload component\<close>

text \<open>Of a \<^verbatim>\<open>File\<close> the component reads the name only.\<close>

record js_file =
  name :: string

text \<open>The state of the component; \<open>file_sel\<close> is its \<^verbatim>\<open>file\<close>, \<open>upload_error\<close> its \<^verbatim>\<open>error\<close>.\<close>

record upload_state =
  file_sel :: "js_file option"
  uploading :: bool
  progress :: nat
  upload_error :: string

definition allowedTypes :: "string list" where
  "allowedTypes = [''.pdf'', ''.txt'', ''.md'', ''.docx'']"

definition fileExtension :: "string \<Rightarrow> string" where
  "fileExtension n = toLowerCase (substring n (lastIndexOf n (CHR ''.'')))"

text \<open>Lines 28 to 41; a \<^verbatim>\<open>File\<close> object is never false, so line 29 does not return.\<close>

definition validateAndSetFile :: "upload_state \<Rightarrow> js_file \<Rightarrow> upload_state" where
  "validateAndSetFile st selectedFile =
     (if fileExtension (name selectedFile) \<notin> set allowedTypes
      then st\<lparr>upload_error := ''Unsupported file type. Allowed types: '' @ join '', '' allowedTypes\<rparr>
      else st\<lparr>file_sel := Some selectedFile, upload_error := []\<rparr>)"

text \<open>The file input and the drop zone both hand the first file, if any, to the check.\<close>

definition handleFileChange :: "upload_state \<Rightarrow> js_file option \<Rightarrow> upload_state" where
  "handleFileChange st selected =
     (case selected of None \<Rightarrow> st | Some selectedFile \<Rightarrow> validateAndSetFile st selectedFile)"

definition handleDrop :: "upload_state \<Rightarrow> js_file option \<Rightarrow> upload_state" where
  "handleDrop st dropped =
     (case dropped of None \<Rightarrow> st | Some droppedFile \<Rightarrow> validateAndSetFile st droppedFile)"

text \<open>
  \<^verbatim>\<open>handleUpload\<close> (lines 55 to 77): the outcome of \<^verbatim>\<open>uploadDocument\<close> is the list of
  progress values it reports and whether it fails. The result is the new state and the
  file of the upload request, if a request is made.
\<close>

datatype upload_outcome = Uploaded | UploadFailed js_exn

definition handleUpload :: "upload_state \<Rightarrow> nat list \<Rightarrow> upload_outcome \<Rightarrow> upload_state \<times> js_file option" where
  "handleUpload st reported outcome =
     (case file_sel st of
        None \<Rightarrow> (st, None)
      | Some f \<Rightarrow>
          (let st1 = st\<lparr>uploading := True, progress := 0, upload_error := []\<rparr>;
               st2 = foldl (\<lambda>s v. s\<lparr>progress := v\<rparr>) st1 reported;
               st3 = (case outcome of
                        Uploaded \<Rightarrow> st2\<lparr>file_sel := None, progress := 0\<rparr>
                      | UploadFailed e \<Rightarrow>
                          st2\<lparr>upload_error :=
                                (case e of JsError m \<Rightarrow> m
                                 | NonError \<Rightarrow> ''Upload failed. Please try again.'')\<rparr>)
           in (st3\<lparr>uploading := False\<rparr>, Some f)))"

section \<open>Notions used to state the properties\<close>

text \<open>
  A payload behind its tag, the wire form of one frame and of a sequence of frames,
  given by their payloads.
\<close>

definition tagged :: "string \<Rightarrow> string" where
  "tagged payload = ''data: '' @ payload"

definition frame :: "string \<Rightarrow> string" where
  "frame payload = tagged payload @ ''\<newline>\<newline>''"

definition wire :: "string list \<Rightarrow> string" where
  "wire payloads = concat (map frame payloads)"

text \<open>A line that carries the error sentinel after the tag.\<close>

definition error_line :: "string \<Rightarrow> bool" where
  "error_line l = startsWith l ''data: [ERROR]''"

text \<open>A line whose text after the tag is appended: tagged, not empty after the tag, no sentinel.\<close>

definition data_line :: "string \<Rightarrow> bool" where
  "data_line l = (startsWith l ''data: '' \<and> drop 6 l \<noteq> [] \<and> \<not> startsWith (drop 6 l) ''[ERROR]'')"

definition data_payloads :: "string list \<Rightarrow> string list" where
  "data_payloads ls = map (drop 6) (filter data_line ls)"

text \<open>The events that the loop completes on a text, and the buffer it is left with.\<close>

definition complete_events :: "string \<Rightarrow> string list" where
  "complete_events t = butlast (js_split ''\<newline>\<newline>'' t)"

definition trailing :: "string \<Rightarrow> string" where
  "trailing t = last (js_split ''\<newline>\<newline>'' t)"

definition event_lines :: "string list \<Rightarrow> string list" where
  "event_lines evs = concat (map (js_split ''\<newline>'') evs)"

text \<open>
  The state after a run of appends: the payloads are appended in order, and the message
  list has the update of the last append, if there was one.
\<close>

definition streamed :: "string \<Rightarrow> draft \<Rightarrow> string list \<Rightarrow> draft" where
  "streamed aid st ps =
     (if ps = [] then st
      else (fst st @ concat ps, set_streaming_content aid (fst st @ concat ps) (snd st)))"

text \<open>The state that a loop has reached, whether it returns or throws.\<close>

definition state_of :: "(js_exn \<times> draft) + draft \<Rightarrow> draft" where
  "state_of r = (case r of Inl (e, st) \<Rightarrow> st | Inr st \<Rightarrow> st)"

text \<open>A clock for the worked examples.\<close>

definition clock0 :: clock where
  "clock0 = \<lparr>now_user = 7, iso_user = ''t7'', now_assistant = 8, iso_assistant = ''t8''\<rparr>"

section \<open>Facts about splitting\<close>

lemma split_at_nonempty [simp]: "split_at sep s \<noteq> []"
  by (induction s) (auto split: list.splits)

lemma split_at_short: "length s < length sep \<Longrightarrow> split_at sep s = [s]"
  by (induction s) (auto simp: startsWith_def split: list.splits)

lemma startsWith_append:
  "length sep \<le> length s \<Longrightarrow> startsWith (s @ b) sep = startsWith s sep"
  by (simp add: startsWith_def)

lemma startsWith_length: "startsWith s sep \<Longrightarrow> length sep \<le> length s"
  by (metis startsWith_def length_take min.cobounded1 min.commute)

lemma join_split_at: "sep \<noteq> [] \<Longrightarrow> join sep (split_at sep s) = s"
proof (induction sep s rule: split_at.induct)
  case (1 sep) then show ?case by simp
next
  case (2 sep c cs)
  show ?case
  proof (cases "startsWith (c # cs) sep")
    case True
    obtain p ps where sp: "split_at sep (drop (length sep - 1) cs) = p # ps"
      using split_at_nonempty by (cases "split_at sep (drop (length sep - 1) cs)") auto
    have ih: "join sep (p # ps) = drop (length sep - 1) cs"
      using 2 True sp by simp
    from True have "c # cs = sep @ drop (length sep) (c # cs)"
      by (metis startsWith_def append_take_drop_id)
    moreover have "drop (length sep) (c # cs) = drop (length sep - 1) cs"
      using \<open>sep \<noteq> []\<close> by (cases sep) auto
    ultimately have eq: "c # cs = sep @ drop (length sep - 1) cs" by simp
    have "join sep (split_at sep (c # cs)) = sep @ join sep (p # ps)"
      using True sp by simp
    then show ?thesis using ih eq by simp
  next
    case False
    obtain p ps where sp: "split_at sep cs = p # ps"
      using split_at_nonempty by (cases "split_at sep cs") auto
    then show ?thesis using False 2 by (cases ps) auto
  qed
qed

lemma split_at_single: "sep \<noteq> [] \<Longrightarrow> split_at sep s = [p] \<Longrightarrow> p = s"
  using join_split_at[of sep s] by simp

lemma split_at_append:
  "sep \<noteq> [] \<Longrightarrow>
   split_at sep (a @ b) = butlast (split_at sep a) @ split_at sep (last (split_at sep a) @ b)"
proof (induction sep a rule: split_at.induct)
  case (1 sep)
  then show ?case by simp
next
  case (2 sep c cs)
  show ?case
  proof (cases "startsWith (c # cs) sep")
    case True
    then have len: "length sep \<le> length (c # cs)"
      by (rule startsWith_length)
    with True have sw: "startsWith ((c # cs) @ b) sep"
      using startsWith_append by blast
    from len have dr: "drop (length sep - 1) (cs @ b) = drop (length sep - 1) cs @ b"
      by simp
    show ?thesis using True sw dr 2 by simp
  next
    case nsw0: False
    show ?thesis
    proof (cases "length (c # cs) < length sep")
      case True
      then show ?thesis using split_at_short[OF True] by simp
    next
      case False
      with nsw0 have nsw: "\<not> startsWith ((c # cs) @ b) sep"
        using startsWith_append by (metis not_less)
      obtain p ps where sp: "split_at sep cs = p # ps"
        using split_at_nonempty by (cases "split_at sep cs") auto
      show ?thesis
      proof (cases ps)
        case Nil
        with sp have "p = cs" using split_at_single[OF \<open>sep \<noteq> []\<close>] by simp
        then show ?thesis using sp Nil nsw0 by simp
      next
        case (Cons q qs)
        have ih: "split_at sep (cs @ b) = butlast (split_at sep cs) @ split_at sep (last (split_at sep cs) @ b)"
          using 2 nsw0 by simp
        then show ?thesis using sp Cons nsw0 nsw by simp
      qed
    qed
  qed
qed

lemma split_at_last_fixed:
  "sep \<noteq> [] \<Longrightarrow> split_at sep (last (split_at sep a)) = [last (split_at sep a)]"
proof (induction sep a rule: split_at.induct)
  case (1 sep) then show ?case by simp
next
  case (2 sep c cs)
  show ?case
  proof (cases "startsWith (c # cs) sep")
    case True then show ?thesis using 2 by simp
  next
    case False
    obtain p ps where sp: "split_at sep cs = p # ps"
      using split_at_nonempty by (cases "split_at sep cs") auto
    show ?thesis
    proof (cases ps)
      case Nil
      with sp have "p = cs" using split_at_single[OF \<open>sep \<noteq> []\<close>] by simp
      then show ?thesis using sp Nil False by simp
    next
      case (Cons q qs)
      then show ?thesis using sp False 2 by simp
    qed
  qed
qed

lemma split_at_free: "c \<notin> set a \<Longrightarrow> split_at (c # sep) a = [a]"
  by (induction a) (auto simp: startsWith_def)

lemma split_at_frame:
  "c \<notin> set a \<Longrightarrow> split_at (c # sep) (a @ (c # sep) @ rest) = a # split_at (c # sep) rest"
  by (induction a) (auto simp: startsWith_def)


section \<open>The read loop in terms of the whole text\<close>

lemma process_events_append:
  "process_events aid (xs @ ys) st =
     (case process_events aid xs st of Inl e \<Rightarrow> Inl e | Inr st' \<Rightarrow> process_events aid ys st')"
  by (induction xs arbitrary: st) (auto split: sum.splits)

lemma js_split_nn: "js_split ''\<newline>\<newline>'' s = split_at ''\<newline>\<newline>'' s"
  by (simp add: js_split_def)


lemma pop_or_empty_split [simp]: "pop_or_empty (split_at sep s) = last (split_at sep s)"
  by (simp add: pop_or_empty_def)

lemma read_loop_events:
  "split_at ''\<newline>\<newline>'' buf = [buf] \<Longrightarrow>
   read_loop aid reads buf st =
     (case process_events aid (butlast (split_at ''\<newline>\<newline>'' (buf @ concat reads))) st of
        Inl e \<Rightarrow> Inl e
      | Inr st' \<Rightarrow> Inr (last (split_at ''\<newline>\<newline>'' (buf @ concat reads)), st'))"
proof (induction reads arbitrary: buf st)
  case Nil
  then show ?case by simp
next
  case (Cons v rest)
  let ?es = "split_at ''\<newline>\<newline>'' (buf @ v)"
  let ?fs = "split_at ''\<newline>\<newline>'' (last ?es @ concat rest)"
  have fixed: "split_at ''\<newline>\<newline>'' (last ?es) = [last ?es]"
    by (rule split_at_last_fixed) simp
  have whole: "split_at ''\<newline>\<newline>'' (buf @ concat (v # rest)) = butlast ?es @ ?fs"
    using split_at_append[of "''\<newline>\<newline>''" "buf @ v" "concat rest"] by simp
  have bl: "butlast (butlast ?es @ ?fs) = butlast ?es @ butlast ?fs"
    by (simp add: butlast_append)
  have la: "last (butlast ?es @ ?fs) = last ?fs"
    by simp
  show ?case
    unfolding whole bl la
    by (simp add: js_split_nn process_events_append Cons.IH[OF fixed] split: sum.splits)
qed

lemma read_loop_single:
  "read_loop aid reads [] st = read_loop aid [concat reads] [] st"
  by (simp add: read_loop_events Let_def js_split_nn split: sum.splits)

lemma consume_single: "consume aid reads fin st = consume aid [concat reads] fin st"
  unfolding consume_def read_loop_single[of aid reads] by (rule refl)

section \<open>Closed forms of the loops\<close>

lemma set_streaming_content_twice [simp]:
  "set_streaming_content aid c2 (set_streaming_content aid c1 msgs) = set_streaming_content aid c2 msgs"
  by (induction msgs) (auto simp: set_streaming_content_def)

lemma streamed_Nil [simp]: "streamed aid st [] = st"
  by (simp add: streamed_def)

lemma streamed_append: "streamed aid (streamed aid st ps) qs = streamed aid st (ps @ qs)"
  by (cases st) (auto simp: streamed_def)

lemma startsWith_split:
  "startsWith l (p @ q) = (startsWith l p \<and> startsWith (drop (length p) l) q)"
proof (cases "length p \<le> length l")
  case True
  have "take (length p + length q) l = take (length p) l @ take (length q) (drop (length p) l)"
    by (rule take_add)
  moreover have "length (take (length p) l) = length p" using True by simp
  ultimately show ?thesis
    unfolding startsWith_def by (metis append_eq_append_conv length_append)
next
  case False
  then have "take (length p) l \<noteq> p" by (metis length_take min.cobounded1 min.commute not_less nat_le_linear)
  moreover have "take (length (p @ q)) l \<noteq> p @ q"
    using False by (metis length_append length_take min.cobounded1 le_add1 le_trans min.commute)
  ultimately show ?thesis unfolding startsWith_def by simp
qed

lemma error_line_iff: "error_line l = (startsWith l ''data: '' \<and> startsWith (drop 6 l) ''[ERROR]'')"
proof -
  have len: "length ''data: '' = 6" by simp
  have "startsWith l (''data: '' @ ''[ERROR]'') =
        (startsWith l ''data: '' \<and> startsWith (drop (length ''data: '') l) ''[ERROR]'')"
    by (rule startsWith_split)
  then show ?thesis unfolding len by (simp add: error_line_def)
qed

lemma process_line_ok:
  "\<not> error_line l \<Longrightarrow> process_line aid l st = Inr (streamed aid st (data_payloads [l]))"
  by (cases st) (auto simp: error_line_iff data_payloads_def data_line_def streamed_def Let_def)

lemma process_line_error:
  "error_line l \<Longrightarrow> process_line aid l st = Inl (JsError (trim (drop 13 l)), st)"
  by (cases st) (auto simp: error_line_iff Let_def)

lemma data_payloads_Cons: "data_payloads (l # ls) = data_payloads [l] @ data_payloads ls"
  by (simp add: data_payloads_def)

lemma data_payloads_append: "data_payloads (ls @ ms) = data_payloads ls @ data_payloads ms"
  by (simp add: data_payloads_def)

lemma process_lines_ok:
  "\<forall>l\<in>set ls. \<not> error_line l \<Longrightarrow>
   process_lines aid ls st = Inr (streamed aid st (data_payloads ls))"
proof (induction ls arbitrary: st)
  case Nil then show ?case by (simp add: data_payloads_def)
next
  case (Cons l ls)
  then show ?case
    by (simp add: process_line_ok streamed_append data_payloads_Cons[of l ls])
qed


lemma event_lines_Cons: "event_lines (ev # evs) = js_split ''\<newline>'' ev @ event_lines evs"
  by (simp add: event_lines_def)

lemma process_events_ok:
  "\<forall>l\<in>set (event_lines evs). \<not> error_line l \<Longrightarrow>
   process_events aid evs st = Inr (streamed aid st (data_payloads (event_lines evs)))"
proof (induction evs arbitrary: st)
  case Nil then show ?case by (simp add: data_payloads_def event_lines_def)
next
  case (Cons ev evs)
  then show ?case
    by (simp add: event_lines_Cons process_event_def process_lines_ok streamed_append
        data_payloads_append)
qed


lemma process_rest_line_eq:
  "process_rest_line aid st l = streamed aid st (data_payloads [l])"
  by (cases st) (auto simp: data_payloads_def data_line_def streamed_def Let_def)

lemma foldl_rest:
  "foldl (process_rest_line aid) st ls = streamed aid st (data_payloads ls)"
proof (induction ls arbitrary: st)
  case Nil then show ?case by (simp add: data_payloads_def)
next
  case (Cons l ls)
  then show ?case by (simp add: process_rest_line_eq streamed_append data_payloads_Cons[of l ls])
qed

lemma process_rest_eq:
  "process_rest aid buffer st = streamed aid st (data_payloads (js_split ''\<newline>'' buffer))"
  by (simp add: process_rest_def foldl_rest) (simp add: js_split_def data_payloads_def data_line_def startsWith_def)

lemma consume_ok:
  "\<forall>l\<in>set (event_lines (complete_events (concat reads))). \<not> error_line l \<Longrightarrow>
   consume aid reads Closed st =
     Inr (streamed aid st (data_payloads (event_lines (complete_events (concat reads))
                                          @ js_split ''\<newline>'' (trailing (concat reads)))))"
  by (simp add: consume_def read_loop_events complete_events_def trailing_def js_split_nn
      process_events_ok process_rest_eq streamed_append data_payloads_append)

section \<open>Frames on the wire\<close>

lemma startsWith_tagged [simp]: "startsWith (tagged p) ''data: ''"
  by (simp add: startsWith_def tagged_def)

lemma drop_tagged [simp]: "drop 6 (tagged p) = p"
  by (simp add: tagged_def)

lemma set_tagged [simp]: "(CHR ''\<newline>'' \<in> set (tagged p)) = (CHR ''\<newline>'' \<in> set p)"
  by (simp add: tagged_def)

lemma wire_Cons: "wire (p # ps) = tagged p @ ''\<newline>\<newline>'' @ wire ps"
  by (simp add: wire_def frame_def)

lemma split_wire:
  "\<forall>p\<in>set ps. CHR ''\<newline>'' \<notin> set p \<Longrightarrow>
   split_at ''\<newline>\<newline>'' (wire ps @ rest) = map tagged ps @ split_at ''\<newline>\<newline>'' rest"
proof (induction ps)
  case Nil then show ?case by (simp add: wire_def)
next
  case (Cons p ps)
  have nl: "CHR ''\<newline>'' \<notin> set (tagged p)" using Cons.prems by simp
  have "split_at ''\<newline>\<newline>'' (tagged p @ ''\<newline>\<newline>'' @ (wire ps @ rest)) =
        tagged p # split_at ''\<newline>\<newline>'' (wire ps @ rest)"
    using nl by (rule split_at_frame)
  then show ?case using Cons by (simp add: wire_Cons)
qed

lemma lines_tagged:
  "CHR ''\<newline>'' \<notin> set p \<Longrightarrow> js_split ''\<newline>'' (tagged p) = [tagged p]"
proof -
  assume "CHR ''\<newline>'' \<notin> set p"
  then have "CHR ''\<newline>'' \<notin> set (tagged p)" by simp
  then have "split_at ''\<newline>'' (tagged p) = [tagged p]" by (rule split_at_free)
  then show ?thesis by (simp add: js_split_def)
qed

lemma event_lines_tagged:
  "\<forall>p\<in>set ps. CHR ''\<newline>'' \<notin> set p \<Longrightarrow> event_lines (map tagged ps) = map tagged ps"
proof (induction ps)
  case Nil then show ?case by (simp add: event_lines_def)
next
  case (Cons p ps)
  then show ?case using lines_tagged[of p] by (simp add: event_lines_Cons)
qed

lemma error_line_tagged [simp]: "error_line (tagged p) = startsWith p ''[ERROR]''"
  by (simp add: error_line_iff)

lemma data_payloads_tagged:
  "\<forall>p\<in>set ps. \<not> startsWith p ''[ERROR]'' \<Longrightarrow>
   data_payloads (map tagged ps) = filter (\<lambda>p. p \<noteq> []) ps"
  by (induction ps) (auto simp: data_payloads_def data_line_def)

lemma concat_filter_nonempty: "concat (filter (\<lambda>p. p \<noteq> []) ps) = concat ps"
  by (induction ps) auto




lemma last_streamed:
  "last (snd (streamed (assistantMessageId clk) ([], ms @ [assistantMessage clk]) ps)) =
   (assistantMessage clk)\<lparr>content := concat ps\<rparr>"
  by (simp add: streamed_def set_streaming_content_def assistantMessage_def)


lemma try_block_ok:
  assumes "consume aid reads fin ([], messages s1) = Inr st"
    and "s1 = (if truthy cid \<and> \<not> truthy conv then s\<lparr>conversationId := cid\<rparr> else s)"
  shows "finish_turn aid conv (Response cid (Some (reads, fin))) s =
         s1\<lparr>messages := mark_complete aid (snd st), isLoading := False\<rparr>"
  using assms by (cases st) (simp add: finish_turn_def try_block_def Let_def)


section \<open>Reassembly across reads\<close>

text \<open>
  C1: however the text of the body is cut into reads, the receiver ends in the same
  state as with the whole text in one read: the same accumulated content and message
  list, or the same throw. This holds for every text, in particular for every valid
  sequence of frames, and so for a whole turn. The text \<open>data: hello\<close> and its blank
  line, read as \<open>da\<close> and then the rest, gives the content \<open>hello\<close>.
\<close>

theorem C1_reassembly:
  "consume aid reads fin st = consume aid [concat reads] fin st
   \<and> handleSendMessage s clk text (Response cid (Some (reads, fin))) =
       handleSendMessage s clk text (Response cid (Some ([concat reads], fin)))
   \<and> consume aid [''da'', ''ta: hello\<newline>\<newline>''] Closed ([], msgs) =
       Inr (''hello'', set_streaming_content aid ''hello'' msgs)"
proof -
  have a: "consume aid reads fin st = consume aid [concat reads] fin st"
    by (rule consume_single)
  have b: "handleSendMessage s clk text (Response cid (Some (reads, fin))) =
           handleSendMessage s clk text (Response cid (Some ([concat reads], fin)))"
    unfolding handleSendMessage_def finish_turn_def try_block_def
    by (simp add: consume_single[of _ reads])
  have c: "consume aid [''da'', ''ta: hello\<newline>\<newline>''] Closed ([], msgs) =
           Inr (''hello'', set_streaming_content aid ''hello'' msgs)"
    by (simp add: consume_def js_split_def startsWith_def process_event_def process_rest_def
        pop_or_empty_def Let_def)
  from a b c show ?thesis by blast
qed

theorem C1_reassembly_witness:
  "consume ''a1'' [''data: a\<newline>'', ''\<newline>da'', ''ta: b\<newline>\<newline>''] Closed ([], []) =
   consume ''a1'' [''data: a\<newline>\<newline>data: b\<newline>\<newline>''] Closed ([], [])"
  using C1_reassembly [of "''a1''" "[''data: a\<newline>'', ''\<newline>da'', ''ta: b\<newline>\<newline>'']" Closed "([], [])"]
  by simp

section \<open>An error frame in the stream\<close>



section \<open>A stream that ends without an error frame\<close>

lemma turn_ok:
  assumes ok: "accepts s text"
    and noerr: "\<forall>l\<in>set (event_lines (complete_events (concat reads))). \<not> error_line l"
  shows "handleSendMessage s clk text (Response cid (Some (reads, Closed))) =
         (if truthy cid \<and> \<not> truthy (conversationId s) then s\<lparr>conversationId := cid\<rparr> else s)
           \<lparr>error := None,
            messages := mark_complete (assistantMessageId clk)
              (snd (streamed (assistantMessageId clk) ([], messages (begin_turn s clk text))
                 (data_payloads (event_lines (complete_events (concat reads))
                                 @ js_split ''\<newline>'' (trailing (concat reads)))))),
            isLoading := False\<rparr>"
proof -
  let ?aid = "assistantMessageId clk"
  let ?b = "begin_turn s clk text"
  let ?s1 = "(if truthy cid \<and> \<not> truthy (conversationId s) then ?b\<lparr>conversationId := cid\<rparr> else ?b)"
  let ?ps = "data_payloads (event_lines (complete_events (concat reads))
                                 @ js_split ''\<newline>'' (trailing (concat reads)))"
  have m: "messages ?s1 = messages ?b" by simp
  have "consume ?aid reads Closed ([], messages ?s1) = Inr (streamed ?aid ([], messages ?s1) ?ps)"
    using noerr by (rule consume_ok)
  then have "finish_turn ?aid (conversationId s) (Response cid (Some (reads, Closed))) ?b =
        ?s1\<lparr>messages := mark_complete ?aid (snd (streamed ?aid ([], messages ?s1) ?ps)),
            isLoading := False\<rparr>"
    using try_block_ok[of "?aid" reads Closed "?s1" _ cid "conversationId s" "?b"] by simp
  then show ?thesis
    using ok unfolding m by (simp add: handleSendMessage_def begin_turn_def)
qed

lemma last_mark_complete:
  "msgs \<noteq> [] \<Longrightarrow> msg_id (last msgs) = aid \<Longrightarrow>
   last (mark_complete aid msgs) = (last msgs)\<lparr>isStreaming := Some False\<rparr>"
  by (simp add: mark_complete_def last_map)

lemma length_streamed [simp]: "length (snd (streamed aid st ps)) = length (snd st)"
  by (simp add: streamed_def set_streaming_content_def)

lemma length_mark_complete [simp]: "length (mark_complete aid msgs) = length msgs"
  by (simp add: mark_complete_def)

lemma messages_begin_turn:
  "messages (begin_turn s clk text) = (messages s @ [userMessage clk text]) @ [assistantMessage clk]"
  by (simp add: begin_turn_def)

lemma turn_facts:
  assumes ok: "accepts s text"
    and noerr: "\<forall>l\<in>set (event_lines (complete_events (concat reads))). \<not> error_line l"
  shows "let aid = assistantMessageId clk;
             ps = data_payloads (event_lines (complete_events (concat reads))
                                 @ js_split ''\<newline>'' (trailing (concat reads)));
             st = streamed aid ([], messages (begin_turn s clk text)) ps;
             s' = handleSendMessage s clk text (Response cid (Some (reads, Closed)))
         in consume aid reads Closed ([], messages (begin_turn s clk text)) = Inr st
            \<and> last (snd st) = (assistantMessage clk)\<lparr>content := concat ps\<rparr>
            \<and> isStreaming (last (snd st)) = Some True
            \<and> messages s' = mark_complete aid (snd st)
            \<and> last (messages s') = (assistantMessage clk)\<lparr>content := concat ps, isStreaming := Some False\<rparr>
            \<and> length (messages s') = length (messages s) + 2
            \<and> isLoading s' = False \<and> error s' = None"
proof -
  let ?aid = "assistantMessageId clk"
  let ?ps = "data_payloads (event_lines (complete_events (concat reads))
                                 @ js_split ''\<newline>'' (trailing (concat reads)))"
  let ?st = "streamed ?aid ([], messages (begin_turn s clk text)) ?ps"
  let ?s' = "handleSendMessage s clk text (Response cid (Some (reads, Closed)))"
  have c: "consume ?aid reads Closed ([], messages (begin_turn s clk text)) = Inr ?st"
    using noerr by (rule consume_ok)
  have l: "last (snd ?st) = (assistantMessage clk)\<lparr>content := concat ?ps\<rparr>"
    unfolding messages_begin_turn by (rule last_streamed)
  have f: "isStreaming (last (snd ?st)) = Some True"
    unfolding l by (simp add: assistantMessage_def)
  have "length (snd ?st) = length (messages s) + 2"
    by (simp add: messages_begin_turn)
  then have ne: "snd ?st \<noteq> []"
    by (metis add_2_eq_Suc' list.size(3) nat.simps(3))
  have idl: "msg_id (last (snd ?st)) = ?aid"
    unfolding l by (simp add: assistantMessage_def)
  have h: "?s' = (if truthy cid \<and> \<not> truthy (conversationId s) then s\<lparr>conversationId := cid\<rparr> else s)
           \<lparr>error := None, messages := mark_complete ?aid (snd ?st), isLoading := False\<rparr>"
    using ok noerr by (rule turn_ok)
  have m: "messages ?s' = mark_complete ?aid (snd ?st)"
    unfolding h by simp
  have lm: "last (messages ?s') = (assistantMessage clk)\<lparr>content := concat ?ps, isStreaming := Some False\<rparr>"
    unfolding m last_mark_complete[OF ne idl] l by simp
  have len: "length (messages ?s') = length (messages s) + 2"
    unfolding m by (simp add: messages_begin_turn)
  have fl: "isLoading ?s' = False \<and> error ?s' = None"
    unfolding h by simp
  from c l f m lm len fl show ?thesis unfolding Let_def by blast
qed


text \<open>
  C6: a turn is accepted and the body closes with no sentinel line in any complete event.
  Then the receiver does not throw: with all reads consumed and the remaining buffer
  processed the draft is still the last message, holds the concatenation of the
  payloads appended, and still has its streaming flag set; the final update then clears
  the flag. So in the state the turn ends in, the draft is kept as the last message
  with that content and the flag cleared, the list has grown by exactly the user message
  and the draft, the loading flag is cleared and no error is set.
\<close>

theorem C6_completed:
  assumes ok: "accepts s text"
    and noerr: "\<forall>l\<in>set (event_lines (complete_events (concat reads))). \<not> error_line l"
  shows "let aid = assistantMessageId clk;
             ps = data_payloads (event_lines (complete_events (concat reads))
                                 @ js_split ''\<newline>'' (trailing (concat reads)));
             st = streamed aid ([], messages (begin_turn s clk text)) ps;
             s' = handleSendMessage s clk text (Response cid (Some (reads, Closed)))
         in consume aid reads Closed ([], messages (begin_turn s clk text)) = Inr st
            \<and> last (snd st) = (assistantMessage clk)\<lparr>content := concat ps\<rparr>
            \<and> isStreaming (last (snd st)) = Some True
            \<and> messages s' = mark_complete aid (snd st)
            \<and> last (messages s') = (assistantMessage clk)\<lparr>content := concat ps, isStreaming := Some False\<rparr>
            \<and> length (messages s') = length (messages s) + 2
            \<and> isLoading s' = False \<and> error s' = None"
  using ok noerr by (rule turn_facts)

theorem C6_completed_witness:
  "accepts (app mounted) ''hello'' \<and>
   last (messages (handleSendMessage (app mounted) clock0 ''hello''
      (Response None (Some ([''data: a\<newline>\<newline>da'', ''ta: b\<newline>\<newline>''], Closed))))) =
   (assistantMessage clock0)\<lparr>content := ''ab'', isStreaming := Some False\<rparr>"
proof -
  let ?reads = "[''data: a\<newline>\<newline>da'', ''ta: b\<newline>\<newline>'']"
  have h: "accepts (app mounted) ''hello''"
    by (simp add: mounted_def accepts_def trim_def isWhiteSpace_def)
  have ce: "complete_events (concat ?reads) = [''data: a'', ''data: b'']"
    by (simp add: complete_events_def js_split_def startsWith_def)
  have tr: "trailing (concat ?reads) = []"
    by (simp add: trailing_def js_split_def startsWith_def)
  have el: "event_lines [''data: a'', ''data: b''] = [''data: a'', ''data: b'']"
    by (simp add: event_lines_def js_split_def startsWith_def)
  have n: "\<forall>l\<in>set (event_lines (complete_events (concat ?reads))). \<not> error_line l"
    unfolding ce el by (simp add: error_line_def startsWith_def)
  have ps: "data_payloads (event_lines (complete_events (concat ?reads))
                           @ js_split ''\<newline>'' (trailing (concat ?reads))) = [''a'', ''b'']"
    unfolding ce el tr
    by (simp add: data_payloads_def data_line_def js_split_def startsWith_def)
  from C6_completed [OF h n, of clock0 None]
  have "last (messages (handleSendMessage (app mounted) clock0 ''hello''
          (Response None (Some (?reads, Closed))))) =
        (assistantMessage clock0)\<lparr>content := concat [''a'', ''b''], isStreaming := Some False\<rparr>"
    unfolding Let_def ps by blast
  with h show ?thesis by simp
qed

section \<open>A sentinel in the remaining buffer\<close>

text \<open>
  C10: a turn is accepted and the text of the body is a sequence of data frames followed
  by a tagged sentinel line that no blank line terminates. When the body closes the
  leftover line is skipped (processing it as the remaining buffer leaves every state as
  it is): the turn ends exactly as it does on the data frames alone, with no error, the
  loading flag cleared, and the draft kept with the content of the data frames and its
  streaming flag cleared.
\<close>

theorem C10_trailing_error:
  assumes ok: "accepts s text"
    and plain: "\<forall>p\<in>set ps. CHR ''\<newline>'' \<notin> set p \<and> \<not> startsWith p ''[ERROR]''"
    and nlm: "CHR ''\<newline>'' \<notin> set m"
    and wre: "concat reads = wire ps @ tagged (''[ERROR]'' @ m)"
  shows "let s' = handleSendMessage s clk text (Response cid (Some (reads, Closed)))
         in s' = handleSendMessage s clk text (Response cid (Some ([wire ps], Closed)))
            \<and> error s' = None \<and> isLoading s' = False
            \<and> last (messages s') =
                (assistantMessage clk)\<lparr>content := concat ps, isStreaming := Some False\<rparr>
            \<and> process_rest aid (tagged (''[ERROR]'' @ m)) st = st"
proof -
  define e where "e = tagged (''[ERROR]'' @ m)"
  let ?s' = "handleSendMessage s clk text (Response cid (Some (reads, Closed)))"
  let ?f = "filter (\<lambda>p. p \<noteq> []) ps"
  have nl: "\<forall>p\<in>set ps. CHR ''\<newline>'' \<notin> set p" using plain by simp
  have ne: "\<forall>p\<in>set ps. \<not> startsWith p ''[ERROR]''" using plain by simp
  have nle: "CHR ''\<newline>'' \<notin> set e" using nlm by (simp add: e_def)
  have ndl: "\<not> data_line e" by (simp add: e_def data_line_def startsWith_def)
  have le: "js_split ''\<newline>'' e = [e]"
    using split_at_free[OF nle, of "[]"] by (simp add: js_split_def)
  have dpe: "data_payloads [e] = []" by (simp add: data_payloads_def ndl)
  have rest: "process_rest aid e st = st"
    unfolding process_rest_eq le dpe by simp
  have sp1: "split_at ''\<newline>\<newline>'' (concat reads) = map tagged ps @ [e]"
    unfolding wre e_def[symmetric]
    using split_wire[OF nl, of e] split_at_free[OF nle, of "''\<newline>''"] by simp
  have sp2: "split_at ''\<newline>\<newline>'' (concat [wire ps]) = map tagged ps @ [[]]"
    using split_wire[OF nl, of "[]"] by simp
  have ce1: "complete_events (concat reads) = map tagged ps"
    unfolding complete_events_def js_split_nn sp1 by simp
  have ce2: "complete_events (concat [wire ps]) = map tagged ps"
    unfolding complete_events_def js_split_nn sp2 by simp
  have tr1: "trailing (concat reads) = e"
    unfolding trailing_def js_split_nn sp1 by simp
  have tr2: "trailing (concat [wire ps]) = []"
    unfolding trailing_def js_split_nn sp2 by simp
  have noerr: "\<forall>l\<in>set (event_lines (map tagged ps)). \<not> error_line l"
    using ne by (auto simp: event_lines_tagged[OF nl])
  have dpt: "data_payloads (event_lines (map tagged ps)) = ?f"
    unfolding event_lines_tagged[OF nl] by (rule data_payloads_tagged[OF ne])
  have dp0: "data_payloads (js_split ''\<newline>'' []) = []"
    by (simp add: data_payloads_def data_line_def js_split_def startsWith_def)
  have dp1: "data_payloads (event_lines (map tagged ps) @ js_split ''\<newline>'' e) = ?f"
    unfolding data_payloads_append dpt le dpe by simp
  have dp2: "data_payloads (event_lines (map tagged ps) @ js_split ''\<newline>'' []) = ?f"
    unfolding data_payloads_append dpt dp0 by simp
  have n1: "\<forall>l\<in>set (event_lines (complete_events (concat reads))). \<not> error_line l"
    unfolding ce1 by (rule noerr)
  have n2: "\<forall>l\<in>set (event_lines (complete_events (concat [wire ps]))). \<not> error_line l"
    unfolding ce2 by (rule noerr)
  have eq: "?s' = handleSendMessage s clk text (Response cid (Some ([wire ps], Closed)))"
    unfolding turn_ok[OF ok n1] turn_ok[OF ok n2] unfolding ce1 ce2 tr1 tr2 dp1 dp2
    by (rule refl)
  have c6: "let aid = assistantMessageId clk;
             ps = ?f;
             st = streamed aid ([], messages (begin_turn s clk text)) ps;
             s' = handleSendMessage s clk text (Response cid (Some (reads, Closed)))
         in consume aid reads Closed ([], messages (begin_turn s clk text)) = Inr st
            \<and> last (snd st) = (assistantMessage clk)\<lparr>content := concat ps\<rparr>
            \<and> isStreaming (last (snd st)) = Some True
            \<and> messages s' = mark_complete aid (snd st)
            \<and> last (messages s') = (assistantMessage clk)\<lparr>content := concat ps, isStreaming := Some False\<rparr>
            \<and> length (messages s') = length (messages s) + 2
            \<and> isLoading s' = False \<and> error s' = None"
    using turn_facts[OF ok n1, of clk cid] unfolding ce1 tr1 dp1 .
  then have "error ?s' = None \<and> isLoading ?s' = False \<and>
        last (messages ?s') = (assistantMessage clk)\<lparr>content := concat ps, isStreaming := Some False\<rparr>"
    unfolding Let_def concat_filter_nonempty by blast
  with eq rest show ?thesis unfolding Let_def e_def by blast
qed


theorem C10_trailing_error_witness:
  "error (handleSendMessage (app mounted) clock0 ''hello''
      (Response None (Some ([''data: ok\<newline>\<newline>data: [ERR'', ''OR] late''], Closed)))) = None
   \<and> last (messages (handleSendMessage (app mounted) clock0 ''hello''
      (Response None (Some ([''data: ok\<newline>\<newline>data: [ERR'', ''OR] late''], Closed))))) =
     (assistantMessage clock0)\<lparr>content := ''ok'', isStreaming := Some False\<rparr>"
proof -
  let ?reads = "[''data: ok\<newline>\<newline>data: [ERR'', ''OR] late'']"
  have h: "accepts (app mounted) ''hello''"
    by (simp add: mounted_def accepts_def trim_def isWhiteSpace_def)
  have p: "\<forall>p\<in>set [''ok'']. CHR ''\<newline>'' \<notin> set p \<and> \<not> startsWith p ''[ERROR]''"
    by (simp add: startsWith_def)
  have m: "CHR ''\<newline>'' \<notin> set '' late''"
    by simp
  have w: "concat ?reads = wire [''ok''] @ tagged (''[ERROR]'' @ '' late'')"
    by (simp add: wire_def frame_def tagged_def)
  from C10_trailing_error [OF h p m w, of clock0 None "[]" "([], [])"]
  have "error (handleSendMessage (app mounted) clock0 ''hello''
          (Response None (Some (?reads, Closed)))) = None
        \<and> last (messages (handleSendMessage (app mounted) clock0 ''hello''
          (Response None (Some (?reads, Closed))))) =
          (assistantMessage clock0)\<lparr>content := concat [''ok''], isStreaming := Some False\<rparr>"
    unfolding Let_def by blast
  then show ?thesis by simp
qed

section \<open>The buffer\<close>

text \<open>
  C4, as stated, fails when the body closes on an unterminated frame. The body delivers
  \<open>data: hel\<close> and closes: the loop ends with that text in the buffer and nothing
  appended, and the turn then ends with the content \<open>hel\<close>, so the unterminated text
  has been taken as a complete frame.
\<close>

theorem C4_counterexample:
  "read_loop (assistantMessageId clock0) [''data: hel''] []
     ([], messages (begin_turn (app mounted) clock0 ''hello'')) =
   Inr (''data: hel'', ([], messages (begin_turn (app mounted) clock0 ''hello'')))
   \<and> last (messages (handleSendMessage (app mounted) clock0 ''hello''
        (Response None (Some ([''data: hel''], Closed))))) =
     (assistantMessage clock0)\<lparr>content := ''hel'', isStreaming := Some False\<rparr>"
proof -
  let ?reads = "[''data: hel'']"
  have a: "read_loop (assistantMessageId clock0) ?reads []
     ([], messages (begin_turn (app mounted) clock0 ''hello'')) =
   Inr (''data: hel'', ([], messages (begin_turn (app mounted) clock0 ''hello'')))"
    by (simp add: js_split_def startsWith_def pop_or_empty_def Let_def)
  have h: "accepts (app mounted) ''hello''"
    by (simp add: mounted_def accepts_def trim_def isWhiteSpace_def)
  have ce: "complete_events (concat ?reads) = []"
    by (simp add: complete_events_def js_split_def startsWith_def)
  have tr: "trailing (concat ?reads) = ''data: hel''"
    by (simp add: trailing_def js_split_def startsWith_def)
  have n: "\<forall>l\<in>set (event_lines (complete_events (concat ?reads))). \<not> error_line l"
    unfolding ce by (simp add: event_lines_def)
  have ps: "data_payloads (event_lines (complete_events (concat ?reads))
                           @ js_split ''\<newline>'' (trailing (concat ?reads))) = [''hel'']"
    unfolding ce tr
    by (simp add: event_lines_def data_payloads_def data_line_def js_split_def startsWith_def)
  from turn_facts [OF h n, of clock0 None]
  have "last (messages (handleSendMessage (app mounted) clock0 ''hello''
          (Response None (Some (?reads, Closed))))) =
        (assistantMessage clock0)\<lparr>content := concat [''hel''], isStreaming := Some False\<rparr>"
    unfolding Let_def ps by blast
  with a show ?thesis by simp
qed

text \<open>
  C4, amended. While the body is being read, the text after the last blank-line
  delimiter is retained in the buffer and not processed: after any reads the loop has
  processed exactly the completed events of the text received and holds the trailing
  text as its buffer; the buffer contains no delimiter, and the completed events and
  the buffer, joined by delimiters, are the text received, so nothing is lost. When the
  body closes, the remaining buffer is processed line by line as a complete event would
  be: the payload of each tagged line is appended, and a line with the sentinel is
  skipped.
\<close>

theorem C4_buffer:
  "read_loop aid reads [] st =
     (case process_events aid (complete_events (concat reads)) st of
        Inl x \<Rightarrow> Inl x
      | Inr st' \<Rightarrow> Inr (trailing (concat reads), st'))
   \<and> js_split ''\<newline>\<newline>'' (trailing (concat reads)) = [trailing (concat reads)]
   \<and> join ''\<newline>\<newline>'' (complete_events (concat reads) @ [trailing (concat reads)]) = concat reads
   \<and> (read_loop aid reads [] st = Inr (buffer, st') \<longrightarrow>
        consume aid reads Closed st =
          Inr (streamed aid st' (data_payloads (js_split ''\<newline>'' buffer))))"
proof -
  have a: "read_loop aid reads [] st =
     (case process_events aid (complete_events (concat reads)) st of
        Inl x \<Rightarrow> Inl x
      | Inr st' \<Rightarrow> Inr (trailing (concat reads), st'))"
    by (simp add: read_loop_events complete_events_def trailing_def js_split_nn
        split: sum.splits)
  have b: "js_split ''\<newline>\<newline>'' (trailing (concat reads)) = [trailing (concat reads)]"
    unfolding trailing_def js_split_nn by (rule split_at_last_fixed) simp
  have "join ''\<newline>\<newline>'' (split_at ''\<newline>\<newline>'' (concat reads)) = concat reads"
    by (rule join_split_at) simp
  then have c: "join ''\<newline>\<newline>'' (complete_events (concat reads) @ [trailing (concat reads)]) = concat reads"
    by (simp add: complete_events_def trailing_def js_split_nn)
  have d: "read_loop aid reads [] st = Inr (buffer, st') \<longrightarrow>
        consume aid reads Closed st =
          Inr (streamed aid st' (data_payloads (js_split ''\<newline>'' buffer)))"
    by (simp add: consume_def process_rest_eq)
  from a b c d show ?thesis by blast
qed

theorem C4_buffer_witness:
  "read_loop ''a1'' [''data: x\<newline>\<newline>data'', '': y''] [] ([], []) = Inr (''data: y'', (''x'', []))
   \<and> consume ''a1'' [''data: x\<newline>\<newline>data'', '': y''] Closed ([], []) = Inr (''xy'', [])"
proof -
  have r: "read_loop ''a1'' [''data: x\<newline>\<newline>data'', '': y''] [] ([], []) = Inr (''data: y'', (''x'', []))"
    by (simp add: js_split_def startsWith_def pop_or_empty_def Let_def process_event_def
        set_streaming_content_def)
  have p: "data_payloads (js_split ''\<newline>'' ''data: y'') = [''y'']"
    by (simp add: data_payloads_def data_line_def js_split_def startsWith_def)
  from C4_buffer [of "''a1''" "[''data: x\<newline>\<newline>data'', '': y'']" "([], [])" "''data: y''" "(''x'', [])"] r
  have "consume ''a1'' [''data: x\<newline>\<newline>data'', '': y''] Closed ([], []) =
          Inr (streamed ''a1'' (''x'', []) (data_payloads (js_split ''\<newline>'' ''data: y'')))"
    by blast
  then show ?thesis using r unfolding p by (simp add: streamed_def set_streaming_content_def)
qed


section \<open>Payloads of several lines\<close>








section \<open>Appending a payload\<close>







section \<open>Other messages during streaming\<close>

lemma state_of_process_lines:
  "\<exists>ps. state_of (process_lines aid ls st) = streamed aid st ps"
proof (induction ls arbitrary: st)
  case Nil
  have "state_of (process_lines aid [] st) = streamed aid st []" by (simp add: state_of_def)
  then show ?case by blast
next
  case (Cons l ls)
  show ?case
  proof (cases "error_line l")
    case True
    then have "state_of (process_lines aid (l # ls) st) = streamed aid st []"
      by (simp add: process_line_error state_of_def)
    then show ?thesis by blast
  next
    case False
    from Cons[of "streamed aid st (data_payloads [l])"] obtain ps where
      "state_of (process_lines aid ls (streamed aid st (data_payloads [l]))) =
       streamed aid (streamed aid st (data_payloads [l])) ps" by blast
    then have "state_of (process_lines aid (l # ls) st) = streamed aid st (data_payloads [l] @ ps)"
      using False by (simp add: process_line_ok streamed_append)
    then show ?thesis by blast
  qed
qed

lemma state_of_process_events:
  "\<exists>ps. state_of (process_events aid evs st) = streamed aid st ps"
proof (induction evs arbitrary: st)
  case Nil
  have "state_of (process_events aid [] st) = streamed aid st []" by (simp add: state_of_def)
  then show ?case by blast
next
  case (Cons ev evs)
  obtain ps where ps: "state_of (process_event aid ev st) = streamed aid st ps"
    unfolding process_event_def using state_of_process_lines by blast
  show ?case
  proof (cases "process_event aid ev st")
    case (Inl x)
    then have "state_of (process_events aid (ev # evs) st) = streamed aid st ps"
      using ps by simp
    then show ?thesis by blast
  next
    case (Inr st1)
    then have st1: "st1 = streamed aid st ps" using ps by (simp add: state_of_def)
    from Cons[of st1] obtain qs where "state_of (process_events aid evs st1) = streamed aid st1 qs"
      by blast
    then have "state_of (process_events aid (ev # evs) st) = streamed aid st (ps @ qs)"
      using Inr st1 by (simp add: streamed_append)
    then show ?thesis by blast
  qed
qed

lemma state_of_consume:
  "\<exists>ps. state_of (consume aid reads fin st) = streamed aid st ps"
proof -
  let ?r = "process_events aid (butlast (split_at ''\<newline>\<newline>'' (concat reads))) st"
  obtain ps where ps: "state_of ?r = streamed aid st ps"
    using state_of_process_events by blast
  show ?thesis
  proof (cases ?r)
    case (Inl x)
    then have "state_of (consume aid reads fin st) = streamed aid st ps"
      using ps by (simp add: consume_def read_loop_events)
    then show ?thesis by blast
  next
    case (Inr st1)
    then have st1: "st1 = streamed aid st ps" using ps by (simp add: state_of_def)
    show ?thesis
    proof (cases fin)
      case Closed
      then have "state_of (consume aid reads fin st) =
          streamed aid st (ps @ data_payloads (js_split ''\<newline>'' (last (split_at ''\<newline>\<newline>'' (concat reads)))))"
        using Inr st1
        by (simp add: consume_def read_loop_events process_rest_eq streamed_append state_of_def)
      then show ?thesis by blast
    next
      case (ReadFailed e)
      then have "state_of (consume aid reads fin st) = streamed aid st ps"
        using Inr st1 by (simp add: consume_def read_loop_events state_of_def)
      then show ?thesis by blast
    qed
  qed
qed

lemma set_streaming_content_frame:
  "length (set_streaming_content aid c msgs) = length msgs
   \<and> (\<forall>i<length msgs. msg_id (msgs ! i) \<noteq> aid \<longrightarrow> set_streaming_content aid c msgs ! i = msgs ! i)"
  by (simp add: set_streaming_content_def)

text \<open>
  C9: a streaming content update keeps the length of the list and leaves every message
  whose id is not the draft's exactly as it was. So does the whole consumption of a
  body, whether it returns or throws, whatever the reads and however the body ends.
\<close>

theorem C9_others_unchanged:
  "length (set_streaming_content aid c msgs) = length msgs
   \<and> (\<forall>i<length msgs. msg_id (msgs ! i) \<noteq> aid \<longrightarrow> set_streaming_content aid c msgs ! i = msgs ! i)
   \<and> length (snd (state_of (consume aid reads fin (acc, msgs)))) = length msgs
   \<and> (\<forall>i<length msgs. msg_id (msgs ! i) \<noteq> aid \<longrightarrow>
         snd (state_of (consume aid reads fin (acc, msgs))) ! i = msgs ! i)"
proof -
  obtain ps where ps: "state_of (consume aid reads fin (acc, msgs)) = streamed aid (acc, msgs) ps"
    using state_of_consume by blast
  have "snd (streamed aid (acc, msgs) ps) = msgs
        \<or> snd (streamed aid (acc, msgs) ps) = set_streaming_content aid (acc @ concat ps) msgs"
    by (simp add: streamed_def)
  then show ?thesis
    unfolding ps using set_streaming_content_frame by metis
qed

theorem C9_others_unchanged_witness:
  "snd (state_of (consume ''a1'' [''data: hi\<newline>\<newline>data: [ERROR] x\<newline>\<newline>''] Closed
     ([], [\<lparr>msg_id = ''u1'', msg_role = User, content = ''q'', timestamp = ''t'', isStreaming = None\<rparr>,
           \<lparr>msg_id = ''a1'', msg_role = Assistant, content = [], timestamp = ''t'',
             isStreaming = Some True\<rparr>]))) ! 0 =
   \<lparr>msg_id = ''u1'', msg_role = User, content = ''q'', timestamp = ''t'', isStreaming = None\<rparr>"
  using C9_others_unchanged [of "''a1''" "[]"
      "[\<lparr>msg_id = ''u1'', msg_role = User, content = ''q'', timestamp = ''t'', isStreaming = None\<rparr>,
           \<lparr>msg_id = ''a1'', msg_role = Assistant, content = [], timestamp = ''t'',
             isStreaming = Some True\<rparr>]"
      "[''data: hi\<newline>\<newline>data: [ERROR] x\<newline>\<newline>'']" Closed "[]"]
  by simp

section \<open>Documents: the check of the file type\<close>

lemma toLowerChar_dot: "toLowerChar c = CHR ''.'' \<Longrightarrow> c = CHR ''.''"
proof -
  assume a: "toLowerChar c = CHR ''.''"
  define n where "n = (of_char c :: nat)"
  show ?thesis
  proof (cases "(65 \<le> n \<and> n \<le> 90) \<or> (192 \<le> n \<and> n \<le> 222 \<and> n \<noteq> 215)")
    case True
    then have "toLowerChar c = char_of (n + 32)"
      by (simp add: toLowerChar_def Let_def n_def)
    with a have "char_of (n + 32) = CHR ''.''" by simp
    then have "of_char (char_of (n + 32)) = (of_char (CHR ''.'') :: nat)" by simp
    then have m: "(n + 32) mod 256 = 46" by (simp add: of_char_of)
    from True have "n + 32 < 256" by auto
    then have "(n + 32) mod 256 = n + 32" by simp
    with m True have False by auto
    then show ?thesis by (rule FalseE)
  next
    case False
    then have "toLowerChar c = c"
      unfolding toLowerChar_def Let_def n_def by (rule if_not_P)
    with a show ?thesis by simp
  qed
qed

lemma toLowerChar_dot_self [simp]: "toLowerChar (CHR ''.'') = CHR ''.''"
  by (simp add: toLowerChar_def Let_def)

lemma lastIndexOf_none: "ch \<notin> set s \<Longrightarrow> lastIndexOf s ch = -1"
  by (induction s) (auto simp: Let_def)

lemma lastIndexOf_last:
  "ch \<notin> set ext \<Longrightarrow> lastIndexOf (base @ ch # ext) ch = int (length base)"
proof (induction base)
  case Nil
  then show ?case by (simp add: lastIndexOf_none Let_def)
next
  case (Cons b bs)
  then show ?case by (simp add: Let_def)
qed

lemma fileExtension_dot:
  "CHR ''.'' \<notin> set ext \<Longrightarrow> fileExtension (base @ ''.'' @ ext) = ''.'' @ toLowerCase ext"
  by (simp add: fileExtension_def lastIndexOf_last substring_def toLowerCase_def)

lemma fileExtension_nodot:
  "CHR ''.'' \<notin> set n \<Longrightarrow> fileExtension n \<notin> set allowedTypes"
proof
  assume nd: "CHR ''.'' \<notin> set n" and "fileExtension n \<in> set allowedTypes"
  then have "toLowerCase n \<in> set allowedTypes"
    by (simp add: fileExtension_def lastIndexOf_none substring_def)
  then have "CHR ''.'' \<in> set (toLowerCase n)"
    by (auto simp: allowedTypes_def)
  then obtain c where "c \<in> set n" "toLowerChar c = CHR ''.''"
    by (auto simp: toLowerCase_def)
  then show False using nd toLowerChar_dot by blast
qed

lemma join_allowedTypes: "join '', '' allowedTypes = ''.pdf, .txt, .md, .docx''"
  by (simp add: allowedTypes_def)

text \<open>
  C7: a file whose extension, cut at the last dot of the name and taken in lower case,
  is not one of the four allowed ones is rejected by the check: the unsupported-type
  error is set and nothing else changes, so the file is not selected and an upload that
  follows asks for what was selected before, for nothing if nothing was. A file with
  one of the four extensions is selected and the error is cleared. For a name that ends
  in a dot and a dot-free suffix the extension is that suffix in lower case, so the
  comparison ignores case; a name without a dot is rejected. The file input and the
  drop zone both go through this check.
\<close>

theorem C7_file_type:
  "(fileExtension (name f) \<notin> set allowedTypes \<longrightarrow>
      validateAndSetFile st f =
        st\<lparr>upload_error := ''Unsupported file type. Allowed types: .pdf, .txt, .md, .docx''\<rparr>
      \<and> file_sel (validateAndSetFile st f) = file_sel st
      \<and> snd (handleUpload (validateAndSetFile st f) reported outcome) = file_sel st)
   \<and> (fileExtension (name f) \<in> set allowedTypes \<longrightarrow>
      validateAndSetFile st f = st\<lparr>file_sel := Some f, upload_error := []\<rparr>)
   \<and> (CHR ''.'' \<notin> set ext \<longrightarrow> fileExtension (base @ ''.'' @ ext) = ''.'' @ toLowerCase ext)
   \<and> (CHR ''.'' \<notin> set n \<longrightarrow> fileExtension n \<notin> set allowedTypes)
   \<and> set allowedTypes = {''.pdf'', ''.txt'', ''.md'', ''.docx''}
   \<and> handleFileChange st (Some f) = validateAndSetFile st f
   \<and> handleDrop st (Some f) = validateAndSetFile st f"
proof -
  have a: "validateAndSetFile st f =
        st\<lparr>upload_error := ''Unsupported file type. Allowed types: .pdf, .txt, .md, .docx''\<rparr>"
    if "fileExtension (name f) \<notin> set allowedTypes"
    using that by (simp add: validateAndSetFile_def join_allowedTypes)
  have b: "snd (handleUpload s reported outcome) = file_sel s" for s
    by (cases "file_sel s") (simp_all add: handleUpload_def Let_def)
  have c: "validateAndSetFile st f = st\<lparr>file_sel := Some f, upload_error := []\<rparr>"
    if "fileExtension (name f) \<in> set allowedTypes"
    using that by (simp add: validateAndSetFile_def)
  have d: "CHR ''.'' \<notin> set ext \<longrightarrow> fileExtension (base @ ''.'' @ ext) = ''.'' @ toLowerCase ext"
    using fileExtension_dot by blast
  have e: "CHR ''.'' \<notin> set n \<longrightarrow> fileExtension n \<notin> set allowedTypes"
    using fileExtension_nodot by blast
  have g: "set allowedTypes = {''.pdf'', ''.txt'', ''.md'', ''.docx''}"
    by (simp add: allowedTypes_def)
  have a2: "file_sel (validateAndSetFile st f) = file_sel st"
    if "fileExtension (name f) \<notin> set allowedTypes"
    unfolding a[OF that] by simp
  have b2: "snd (handleUpload (validateAndSetFile st f) reported outcome) = file_sel st"
    if "fileExtension (name f) \<notin> set allowedTypes"
    unfolding b a2[OF that] by (rule refl)
  have h: "handleFileChange st (Some f) = validateAndSetFile st f"
    "handleDrop st (Some f) = validateAndSetFile st f"
    by (simp_all add: handleFileChange_def handleDrop_def)
  from a a2 b2 c d e g h show ?thesis by blast
qed

theorem C7_file_type_witness:
  "validateAndSetFile \<lparr>file_sel = None, uploading = False, progress = 0, upload_error = []\<rparr>
     \<lparr>name = ''setup.EXE''\<rparr> =
   \<lparr>file_sel = None, uploading = False, progress = 0,
    upload_error = ''Unsupported file type. Allowed types: .pdf, .txt, .md, .docx''\<rparr>
   \<and> validateAndSetFile \<lparr>file_sel = None, uploading = False, progress = 0, upload_error = ''old''\<rparr>
     \<lparr>name = ''Thesis.v2.PDF''\<rparr> =
   \<lparr>file_sel = Some \<lparr>name = ''Thesis.v2.PDF''\<rparr>, uploading = False, progress = 0,
    upload_error = []\<rparr>"
proof -
  have x: "fileExtension ''setup.EXE'' \<notin> set allowedTypes" by code_simp
  have y: "fileExtension ''Thesis.v2.PDF'' \<in> set allowedTypes" by code_simp
  from C7_file_type [of "\<lparr>name = ''setup.EXE''\<rparr>"
      "\<lparr>file_sel = None, uploading = False, progress = 0, upload_error = []\<rparr>"] x
  have r: "validateAndSetFile \<lparr>file_sel = None, uploading = False, progress = 0, upload_error = []\<rparr>
     \<lparr>name = ''setup.EXE''\<rparr> =
     \<lparr>file_sel = None, uploading = False, progress = 0, upload_error = []\<rparr>
       \<lparr>upload_error := ''Unsupported file type. Allowed types: .pdf, .txt, .md, .docx''\<rparr>"
    by simp
  from C7_file_type [of "\<lparr>name = ''Thesis.v2.PDF''\<rparr>"
      "\<lparr>file_sel = None, uploading = False, progress = 0, upload_error = ''old''\<rparr>"] y
  have t: "validateAndSetFile \<lparr>file_sel = None, uploading = False, progress = 0, upload_error = ''old''\<rparr>
     \<lparr>name = ''Thesis.v2.PDF''\<rparr> =
     \<lparr>file_sel = None, uploading = False, progress = 0, upload_error = ''old''\<rparr>
       \<lparr>file_sel := Some \<lparr>name = ''Thesis.v2.PDF''\<rparr>, upload_error := []\<rparr>"
    by simp
  from r t show ?thesis by simp
qed

section \<open>One turn at a time\<close>

lemma isLoading_begin_turn [simp]: "isLoading (begin_turn s clk text)"
  by (simp add: begin_turn_def)

lemma call_loading: "isLoading (app sys) \<Longrightarrow> call sys clk text = sys"
  by (simp add: call_def accepts_def)

lemma call_single:
  assumes "length (in_flight sys) \<le> 1" and "in_flight sys \<noteq> [] \<longrightarrow> isLoading (app sys)"
  shows "length (in_flight (call sys clk text)) \<le> 1
         \<and> (in_flight (call sys clk text) \<noteq> [] \<longrightarrow> isLoading (app (call sys clk text)))"
proof (cases "accepts (app sys) text")
  case True
  then have "\<not> isLoading (app sys)" by (simp add: accepts_def)
  with assms(2) have "in_flight sys = []" by blast
  with True show ?thesis by (simp add: call_def)
next
  case False
  with assms show ?thesis by (simp add: call_def)
qed

lemma step_single:
  assumes "length (in_flight sys) \<le> 1" and "in_flight sys \<noteq> [] \<longrightarrow> isLoading (app sys)"
  shows "length (in_flight (step sys ev)) \<le> 1
         \<and> (in_flight (step sys ev) \<noteq> [] \<longrightarrow> isLoading (app (step sys ev)))"
proof (cases ev)
  case (Call clk t)
  then show ?thesis using call_single[OF assms] by simp
next
  case (Send clk input)
  show ?thesis
  proof (cases "fst (handleSend (isLoading (app sys)) input)")
    case None
    then have "step sys ev = sys" unfolding Send by simp
    with assms show ?thesis by simp
  next
    case (Some trimmed)
    then have "step sys ev = call sys clk trimmed" unfolding Send by simp
    then show ?thesis using call_single[OF assms] by simp
  qed
next
  case (Navigate conv outcome)
  have "isLoading (loadConversationHistory s outcome) = isLoading s" for s
    by (simp add: loadConversationHistory_def split: history_outcome.splits option.splits)
  with Navigate assms show ?thesis by simp
next
  case (Settle i resp)
  show ?thesis
  proof (cases "i < length (in_flight sys)")
    case True
    with assms(1) have i0: "i = 0" by simp
    from True assms(1) have "drop (Suc i) (in_flight sys) = []" by simp
    with i0 have e: "take i (in_flight sys) @ drop (Suc i) (in_flight sys) = []" by simp
    obtain aid conv where p: "in_flight sys ! i = (aid, conv)" by (cases "in_flight sys ! i")
    have "in_flight (step sys ev) = []"
      unfolding Settle using True p e by simp
    then show ?thesis by simp
  next
    case False
    with Settle assms show ?thesis by simp
  qed
qed

lemma run_single:
  "length (in_flight sys) \<le> 1 \<Longrightarrow> (in_flight sys \<noteq> [] \<longrightarrow> isLoading (app sys)) \<Longrightarrow>
   length (in_flight (foldl step sys evs)) \<le> 1
   \<and> (in_flight (foldl step sys evs) \<noteq> [] \<longrightarrow> isLoading (app (foldl step sys evs)))"
proof (induction evs arbitrary: sys)
  case Nil
  then show ?case by simp
next
  case (Cons ev evs)
  from step_single[OF Cons.prems, of ev] Cons.IH[of "step sys ev"]
  show ?case by simp
qed

text \<open>
  C8: from the mounted component, whatever handlers run in whatever order, at most one
  turn is in flight, and while one is, the loading flag is set. While the flag is set a
  further submission changes nothing: a call of \<^verbatim>\<open>handleSendMessage\<close> returns at its
  guard, appending no message and sending no request, and the input field does not
  dispatch.
\<close>

theorem C8_single_flight:
  "length (in_flight (foldl step mounted evs)) \<le> 1
   \<and> (in_flight (foldl step mounted evs) \<noteq> [] \<longrightarrow> isLoading (app (foldl step mounted evs)))
   \<and> (isLoading (app sys) \<longrightarrow>
        step sys (Call clk text) = sys \<and> step sys (Send clk input) = sys
        \<and> handleSendMessage (app sys) clk text resp = app sys)
   \<and> fst (handleSend True input) = None"
proof -
  have m: "length (in_flight mounted) \<le> 1" "in_flight mounted \<noteq> [] \<longrightarrow> isLoading (app mounted)"
    by (simp_all add: mounted_def)
  have a: "length (in_flight (foldl step mounted evs)) \<le> 1
   \<and> (in_flight (foldl step mounted evs) \<noteq> [] \<longrightarrow> isLoading (app (foldl step mounted evs)))"
    using m by (rule run_single)
  have b: "step sys (Call clk text) = sys" if "isLoading (app sys)"
    using that by (simp add: call_loading)
  have c: "step sys (Send clk input) = sys" if "isLoading (app sys)"
    using that by (simp add: handleSend_def Let_def)
  have d: "handleSendMessage (app sys) clk text resp = app sys" if "isLoading (app sys)"
    using that by (simp add: handleSendMessage_def accepts_def)
  have e: "fst (handleSend True input) = None"
    by (simp add: handleSend_def Let_def)
  from a b c d e show ?thesis by blast
qed

theorem C8_single_flight_witness:
  "in_flight (foldl step mounted [Call clock0 ''hello'', Send clock0 ''again'']) =
     [(assistantMessageId clock0, None)]
   \<and> step (call mounted clock0 ''hello'') (Call clock0 ''again'') = call mounted clock0 ''hello''"
proof -
  have l: "isLoading (app (call mounted clock0 ''hello''))"
    by (simp add: call_def accepts_def mounted_def trim_def isWhiteSpace_def)
  have f: "foldl step mounted [Call clock0 ''hello'', Send clock0 ''again''] =
           step (call mounted clock0 ''hello'') (Send clock0 ''again'')"
    by simp
  have i: "in_flight (call mounted clock0 ''hello'') = [(assistantMessageId clock0, None)]"
    by (simp add: call_def accepts_def mounted_def trim_def isWhiteSpace_def)
  from C8_single_flight [of "[]" "call mounted clock0 ''hello''" clock0 "''again''" "''again''"] l
  have "step (call mounted clock0 ''hello'') (Call clock0 ''again'') = call mounted clock0 ''hello''
        \<and> step (call mounted clock0 ''hello'') (Send clock0 ''again'') = call mounted clock0 ''hello''"
    by blast
  then show ?thesis unfolding f using i by simp
qed

end
